theory Spec2Isabelle
  imports Main
begin

section \<open>Data model (specs/planning-execution.md, Plan Structure)\<close>

text \<open>
  \<^verbatim>\<open>type StepStatus = 'pending' | 'blocked' | 'ready' | 'running' | 'completed' | 'failed' | 'skipped'\<close>
\<close>

datatype StepStatus = Pending | Blocked | Ready | Running | Completed | Failed | Skipped

text \<open>
  Values of TypeScript type \<^verbatim>\<open>unknown\<close>. A property that is absent reads as
  \<^verbatim>\<open>undefined\<close>, so an optional field of this type is modelled by \<open>Undefined\<close>.
  Numbers are kept as integers; no arithmetic is done on them here.
\<close>

datatype jsvalue =
    Undefined
  | Null
  | JBool bool
  | JNum int
  | JStr string
  | JArr "jsvalue list"
  | JObj "(string \<times> jsvalue) list"

text \<open>\<^verbatim>\<open>Record<string, unknown>\<close>: the keys in insertion order with their values.\<close>

type_synonym jsrecord = "(string \<times> jsvalue) list"

text \<open>
  \<^verbatim>\<open>interface StepResult { ok: boolean; value?: unknown; error?: string; duration; timestamp }\<close>
  The two clock readings (duration, timestamp) are left out: no code of the engine reads them.
\<close>

record StepResult =
  ok :: bool
  val :: jsvalue
  error :: "string option"

text \<open>
  \<^verbatim>\<open>interface Step { id; order; description; tool; args; dependsOn; status; result? }\<close>
  The field \<open>critical\<close> is read by the error-recovery fragment (\<^verbatim>\<open>step.critical\<close>).
\<close>

record Step =
  step_id :: string
  order :: int
  description :: string
  tool :: string
  args :: jsrecord
  dependsOn :: "string list"
  status :: StepStatus
  result :: "StepResult option"
  critical :: bool

text \<open>A plan is used by the engine only through \<^verbatim>\<open>plan.steps\<close>, an array of steps.\<close>

type_synonym Plan = "Step list"

section \<open>Execution context (specs/planning-execution.md, ExecutionContext)\<close>

text \<open>\<^verbatim>\<open>private store = new Map<string, unknown>()\<close>\<close>

type_synonym ExecutionContext = "string \<rightharpoonup> jsvalue"

definition ctx_set :: "ExecutionContext \<Rightarrow> string \<Rightarrow> jsvalue \<Rightarrow> ExecutionContext" where
  "ctx_set store stepId v = store(stepId \<mapsto> v)"

text \<open>\<^verbatim>\<open>Map.get\<close> answers \<^verbatim>\<open>undefined\<close> for a key that was never set.\<close>

definition ctx_get :: "ExecutionContext \<Rightarrow> string \<Rightarrow> jsvalue" where
  "ctx_get store stepId = (case store stepId of None \<Rightarrow> Undefined | Some v \<Rightarrow> v)"

text \<open>
  \<^verbatim>\<open>
  resolveArgs(args) {
    return mapValues(args, value => {
      if (typeof value === 'string' && value.startsWith('$')) {
        const stepId = value.slice(1)
        return this.get(stepId)
      }
      return value
    })
  }
  \<close>
\<close>

definition resolveValue :: "ExecutionContext \<Rightarrow> jsvalue \<Rightarrow> jsvalue" where
  "resolveValue store v =
     (case v of
        JStr s \<Rightarrow>
          (case s of
             c # stepId \<Rightarrow> if c = CHR ''$'' then ctx_get store stepId else v
           | [] \<Rightarrow> v)
      | _ \<Rightarrow> v)"

definition resolveArgs :: "ExecutionContext \<Rightarrow> jsrecord \<Rightarrow> jsrecord" where
  "resolveArgs store as = map (\<lambda>(k, v). (k, resolveValue store v)) as"

section \<open>Tools and the approval gate (the engine's collaborators)\<close>

text \<open>
  \<^verbatim>\<open>execute: (args: unknown) => Promise<Result<unknown>>\<close>: a call either resolves to a
  result or rejects (throws); the thrown value is kept as the text \<^verbatim>\<open>String(error)\<close>.
\<close>

datatype ToolOutcome = Returns StepResult | Throws string

text \<open>
  What the engine calls but does not define: \<^verbatim>\<open>requiresApproval(step)\<close>,
  \<^verbatim>\<open>this.requestApproval(step)\<close> (the user's decision, \<open>True\<close> for approve) and
  \<^verbatim>\<open>toolRegistry.get(name)\<close>. They are parameters of the model.
\<close>

record Env =
  requiresApproval :: "Step \<Rightarrow> bool"
  requestApproval :: "Step \<Rightarrow> bool"
  toolRegistry :: "string \<Rightarrow> (jsrecord \<Rightarrow> ToolOutcome) option"

text \<open>
  What a run does that can be observed: every assignment to \<^verbatim>\<open>step.status\<close>, every call
  of a tool's \<^verbatim>\<open>execute\<close>, every \<^verbatim>\<open>emitProgress\<close>; each tagged with the step's id.
\<close>

datatype Event =
    StatusWrite string StepStatus
  | ToolCall string
  | Emit string StepStatus

section \<open>The execution engine (specs/planning-execution.md, ExecutionEngine)\<close>

text \<open>
  \<^verbatim>\<open>
  private async executeStep(step, context) {
    step.status = 'running'
    this.emitProgress({ step, status: 'running' })
    try {
      if (requiresApproval(step)) {
        const approved = await this.requestApproval(step)
        if (!approved) {
          step.status = 'skipped'
          step.result = { ok: false, error: 'User denied approval' }
          return
        }
      }
      const tool = toolRegistry.get(step.tool)!
      const result = await tool.execute(step.args)
      step.status = result.ok ? 'completed' : 'failed'
      step.result = result
      context.set(step.id, result.value)
      this.emitProgress({ step, status: step.status, result })
    } catch (error) {
      step.status = 'failed'
      step.result = { ok: false, error: String(error) }
      this.emitProgress({ step, status: 'failed', error })
    }
  }
  \<close>
  The function runs without interruption up to its first \<^verbatim>\<open>await\<close>
  (\<open>executeStep_begin\<close>) and continues after it (\<open>executeStep_resume\<close>).
\<close>

definition executeStep_begin :: "Step \<Rightarrow> Step \<times> Event list" where
  "executeStep_begin step =
     (step\<lparr>status := Running\<rparr>,
      [StatusWrite (step_id step) Running, Emit (step_id step) Running])"

definition deniedResult :: StepResult where
  "deniedResult = \<lparr>ok = False, val = Undefined, error = Some ''User denied approval''\<rparr>"

definition thrownResult :: "string \<Rightarrow> StepResult" where
  "thrownResult e = \<lparr>ok = False, val = Undefined, error = Some e\<rparr>"

text \<open>\<^verbatim>\<open>toolRegistry.get(step.tool)!\<close> on an unknown name is \<^verbatim>\<open>undefined\<close>; the call
  \<^verbatim>\<open>tool.execute\<close> then throws this error inside the \<^verbatim>\<open>try\<close>.\<close>

definition noToolError :: string where
  "noToolError = ''TypeError: Cannot read properties of undefined (reading 'execute')''"

definition executeStep_resume ::
  "Env \<Rightarrow> Step \<Rightarrow> ExecutionContext \<Rightarrow> Step \<times> ExecutionContext \<times> Event list" where
  "executeStep_resume env step context =
     (if requiresApproval env step \<and> \<not> requestApproval env step then
        (step\<lparr>status := Skipped, result := Some deniedResult\<rparr>, context,
         [StatusWrite (step_id step) Skipped])
      else
        (case toolRegistry env (tool step) of
           None \<Rightarrow>
             (step\<lparr>status := Failed, result := Some (thrownResult noToolError)\<rparr>, context,
              [StatusWrite (step_id step) Failed, Emit (step_id step) Failed])
         | Some t \<Rightarrow>
             (case t (args step) of
                Throws e \<Rightarrow>
                  (step\<lparr>status := Failed, result := Some (thrownResult e)\<rparr>, context,
                   [ToolCall (step_id step),
                    StatusWrite (step_id step) Failed, Emit (step_id step) Failed])
              | Returns r \<Rightarrow>
                  (let st = (if ok r then Completed else Failed) in
                   (step\<lparr>status := st, result := Some r\<rparr>,
                    ctx_set context (step_id step) (val r),
                    [ToolCall (step_id step),
                     StatusWrite (step_id step) st, Emit (step_id step) st])))))"

definition executeStep ::
  "Env \<Rightarrow> Step \<Rightarrow> ExecutionContext \<Rightarrow> Step \<times> ExecutionContext \<times> Event list" where
  "executeStep env step context =
     (case executeStep_begin step of
        (running, ev1) \<Rightarrow>
          (case executeStep_resume env running context of
             (done, context', ev2) \<Rightarrow> (done, context', ev1 @ ev2)))"

text \<open>
  Modelled from the spec: \<^verbatim>\<open>allDependenciesSatisfied(s, plan)\<close> is called by
  \<^verbatim>\<open>execute\<close> but defined nowhere in the repository. The design says a step is ready
  when all of its prerequisite steps are in status completed; a prerequisite id is looked up
  as plan validation does (\<^verbatim>\<open>plan.steps.find(s => s.id === depId)\<close>), and an id that
  names no step is not satisfied.
\<close>

definition allDependenciesSatisfied :: "Step \<Rightarrow> Plan \<Rightarrow> bool" where
  "allDependenciesSatisfied s plan =
     list_all (\<lambda>depId.
        case find (\<lambda>t. step_id t = depId) plan of
          None \<Rightarrow> False
        | Some t \<Rightarrow> status t = Completed) (dependsOn s)"

definition terminal :: "StepStatus \<Rightarrow> bool" where
  "terminal st = (st = Completed \<or> st = Failed \<or> st = Skipped)"

text \<open>
  Modelled from the spec: \<^verbatim>\<open>hasRemainingSteps(plan)\<close> is called by \<^verbatim>\<open>execute\<close> but
  defined nowhere in the repository: some step has not reached a terminal status.
\<close>

definition hasRemainingSteps :: "Plan \<Rightarrow> bool" where
  "hasRemainingSteps plan = list_ex (\<lambda>s. \<not> terminal (status s)) plan"

text \<open>
  \<^verbatim>\<open>
  const readySteps = plan.steps.filter(s =>
    s.status === 'pending' && allDependenciesSatisfied(s, plan))
  \<close>
\<close>

definition isReady :: "Plan \<Rightarrow> Step \<Rightarrow> bool" where
  "isReady plan s = (status s = Pending \<and> allDependenciesSatisfied s plan)"

definition readySteps :: "Plan \<Rightarrow> Step list" where
  "readySteps plan = filter (isReady plan) plan"

text \<open>
  \<^verbatim>\<open>await Promise.all(readySteps.map(step => this.executeStep(step, context)))\<close>

  \<^verbatim>\<open>map\<close> calls \<^verbatim>\<open>executeStep\<close> on every ready step in array order; each call runs up to
  its first \<^verbatim>\<open>await\<close> and hands back a promise, so every ready step is marked running before
  any of them continues (\<open>launchAll\<close>; the flag tells which steps were launched).
  \<^verbatim>\<open>Promise.all\<close> then waits for all continuations (\<open>awaitAll\<close>). A continuation writes
  only its own step and its own key of the context, so the continuations are taken in array
  order.
\<close>

definition launchAll :: "Plan \<Rightarrow> (bool \<times> Step) list \<times> Event list" where
  "launchAll plan =
     (map (\<lambda>s. if isReady plan s then (True, fst (executeStep_begin s)) else (False, s)) plan,
      concat (map (\<lambda>s. if isReady plan s then snd (executeStep_begin s) else []) plan))"

fun awaitAll ::
  "Env \<Rightarrow> (bool \<times> Step) list \<Rightarrow> ExecutionContext \<Rightarrow> Plan \<times> ExecutionContext \<times> Event list" where
  "awaitAll env [] context = ([], context, [])"
| "awaitAll env ((launched, s) # rest) context =
     (if launched then
        (case executeStep_resume env s context of
           (s', context', ev) \<Rightarrow>
             (case awaitAll env rest context' of
                (plan', context'', evs) \<Rightarrow> (s' # plan', context'', ev @ evs)))
      else
        (case awaitAll env rest context of
           (plan', context'', evs) \<Rightarrow> (s # plan', context'', evs)))"

definition tick :: "Env \<Rightarrow> Plan \<Rightarrow> ExecutionContext \<Rightarrow> Plan \<times> ExecutionContext \<times> Event list" where
  "tick env plan context =
     (case launchAll plan of
        (started, ev1) \<Rightarrow>
          (case awaitAll env started context of
             (plan', context', ev2) \<Rightarrow> (plan', context', ev1 @ ev2)))"

definition pendingCount :: "Plan \<Rightarrow> nat" where
  "pendingCount plan = length (filter (\<lambda>s. status s = Pending) plan)"

text \<open>
  \<^verbatim>\<open>
  while (hasRemainingSteps(plan)) {
    const readySteps = ...
    if (readySteps.length === 0) {
      // Deadlock or all steps done
      break
    }
    await Promise.all(...)
  }
  \<close>
  Every round that does not leave the loop turns at least one pending step into a
  non-pending one, which is why the loop ends.
\<close>

function execute_loop ::
  "Env \<Rightarrow> Plan \<Rightarrow> ExecutionContext \<Rightarrow> Event list \<Rightarrow> Plan \<times> ExecutionContext \<times> Event list" where
  "execute_loop env plan context log =
     (if hasRemainingSteps plan then
        (if readySteps plan = [] then (plan, context, log)
         else execute_loop env (fst (tick env plan context))
                (fst (snd (tick env plan context)))
                (log @ snd (snd (tick env plan context))))
      else (plan, context, log))"
  by pat_completeness auto
termination
proof (relation "measure (\<lambda>(env, plan, context, log). pendingCount plan)")
  show "wf (measure (\<lambda>(env, plan, context, log). pendingCount plan))"
    by simp
next
  fix env :: Env and plan :: Plan and ctx :: ExecutionContext and log :: "Event list"
  assume "hasRemainingSteps plan" and ne: "readySteps plan \<noteq> []"
  have resumed: "status (fst (executeStep_resume env s c)) \<noteq> Pending" for s c
    by (simp add: executeStep_resume_def Let_def split: option.splits ToolOutcome.splits)
  have await: "pendingCount (fst (awaitAll env xs c)) =
      length (filter (\<lambda>(l, s). \<not> l \<and> status s = Pending) xs)" for xs c
  proof (induction xs arbitrary: c)
    case Nil
    show ?case by (simp add: pendingCount_def)
  next
    case (Cons x xs)
    obtain l s where x: "x = (l, s)" by (cases x)
    obtain s' c' ev where r: "executeStep_resume env s c = (s', c', ev)"
      by (cases "executeStep_resume env s c")
    obtain p1 c1 e1 where a1: "awaitAll env xs c' = (p1, c1, e1)"
      by (cases "awaitAll env xs c'")
    obtain p2 c2 e2 where a2: "awaitAll env xs c = (p2, c2, e2)"
      by (cases "awaitAll env xs c")
    show ?case
      using Cons.IH [of c'] Cons.IH [of c] resumed [of s c]
      by (simp add: x r a1 a2 pendingCount_def)
  qed
  have count: "length (filter (\<lambda>(l, s). \<not> l \<and> status s = Pending) (fst (launchAll plan))) =
      length (filter (\<lambda>s. \<not> isReady plan s \<and> status s = Pending) plan)"
  proof -
    have "length (filter (\<lambda>(l, s). \<not> l \<and> status s = Pending)
             (map (\<lambda>s. if R s then (True, f s) else (False, s)) ys)) =
          length (filter (\<lambda>s. \<not> R s \<and> status s = Pending) ys)"
      for R :: "Step \<Rightarrow> bool" and f and ys
      by (induction ys) simp_all
    then show ?thesis by (simp add: launchAll_def)
  qed
  have parts: "pendingCount plan =
      length (filter (\<lambda>s. \<not> isReady plan s \<and> status s = Pending) plan) + length (readySteps plan)"
  proof -
    have "filter (\<lambda>s. status s = Pending) plan =
        filter (\<lambda>s. (\<not> isReady plan s \<and> status s = Pending) \<or> isReady plan s) plan"
      by (rule filter_cong) (auto simp: isReady_def)
    moreover have "length (filter (\<lambda>s. P s \<or> Q s) ys) = length (filter P ys) + length (filter Q ys)"
      if "\<And>s. \<not> (P s \<and> Q s)" for P Q :: "Step \<Rightarrow> bool" and ys
      using that by (induction ys) auto
    ultimately show ?thesis
      by (simp add: pendingCount_def readySteps_def)
  qed
  have "fst (tick env plan ctx) = fst (awaitAll env (fst (launchAll plan)) ctx)"
    by (simp add: tick_def split: prod.splits)
  then have "pendingCount (fst (tick env plan ctx)) < pendingCount plan"
    using ne await [of "fst (launchAll plan)" ctx] count parts
    by simp
  then show "((env, fst (tick env plan ctx), fst (snd (tick env plan ctx)),
               log @ snd (snd (tick env plan ctx))),
              (env, plan, ctx, log)) \<in> measure (\<lambda>(env, plan, context, log). pendingCount plan)"
    by simp
qed

declare execute_loop.simps [simp del]

text \<open>
  Modelled from the spec: \<^verbatim>\<open>this.summarize(plan, context)\<close> and the type
  \<^verbatim>\<open>ExecutionSummary\<close> are used by \<^verbatim>\<open>execute\<close> but defined nowhere in the repository.
  The design asks for per-step results and an overall status: a run that stops with
  steps still pending or blocked ends with a structural-error status; a run fails when a step
  flagged critical failed; step-level failures and skips are otherwise only recorded in the
  per-step results. The wall-clock duration is left out.
\<close>

datatype RunStatus = RunCompleted | RunFailed | RunCancelled | RunStructuralError

record ExecutionSummary =
  perStepResults :: "(string \<times> StepStatus \<times> StepResult option) list"
  overallStatus :: RunStatus

definition summarize :: "Plan \<Rightarrow> ExecutionContext \<Rightarrow> ExecutionSummary" where
  "summarize plan context =
     \<lparr>perStepResults = map (\<lambda>s. (step_id s, status s, result s)) plan,
      overallStatus =
        (if list_ex (\<lambda>s. status s = Pending \<or> status s = Blocked) plan then RunStructuralError
         else if list_ex (\<lambda>s. status s = Failed \<and> critical s) plan then RunFailed
         else RunCompleted)\<rparr>"

text \<open>
  \<^verbatim>\<open>
  async execute(plan) {
    const context = new ExecutionContext()
    while (...) { ... }
    return this.summarize(plan, context)
  }
  \<close>
  \<open>run\<close> is the state the loop leaves behind: the plan as mutated, the context and the
  events of the whole run.
\<close>

definition run :: "Env \<Rightarrow> Plan \<Rightarrow> Plan \<times> ExecutionContext \<times> Event list" where
  "run env plan = execute_loop env plan Map.empty []"

definition finalPlan :: "Env \<Rightarrow> Plan \<Rightarrow> Plan" where
  "finalPlan env plan = fst (run env plan)"

definition finalContext :: "Env \<Rightarrow> Plan \<Rightarrow> ExecutionContext" where
  "finalContext env plan = fst (snd (run env plan))"

definition runEvents :: "Env \<Rightarrow> Plan \<Rightarrow> Event list" where
  "runEvents env plan = snd (snd (run env plan))"

definition execute :: "Env \<Rightarrow> Plan \<Rightarrow> ExecutionSummary" where
  "execute env plan = summarize (finalPlan env plan) (finalContext env plan)"

section \<open>Plan validity (specs/planning-execution.md, Plan Validation)\<close>

text \<open>
  The edges of the dependency graph: \<open>(d, i)\<close> when the step with id \<open>i\<close> lists \<open>d\<close> in
  \<^verbatim>\<open>dependsOn\<close>.
\<close>

definition depEdges :: "Plan \<Rightarrow> (string \<times> string) set" where
  "depEdges plan = set (concat (map (\<lambda>s. map (\<lambda>d. (d, step_id s)) (dependsOn s)) plan))"

text \<open>
  \<^verbatim>\<open>validatePlan\<close> rejects a plan with a dependency cycle (\<^verbatim>\<open>hasCycle(graph)\<close>) and a
  plan with a dependency that names no step of the plan. Step ids are taken to identify
  steps, as every lookup by id supposes.
\<close>

definition validPlan :: "Plan \<Rightarrow> bool" where
  "validPlan plan =
     (distinct (map step_id plan) \<and>
      acyclic (depEdges plan) \<and>
      list_all (\<lambda>s. list_all (\<lambda>d. find (\<lambda>t. step_id t = d) plan \<noteq> None) (dependsOn s)) plan)"

text \<open>A plan that has not been run: every step is pending and has no result.\<close>

definition freshPlan :: "Plan \<Rightarrow> bool" where
  "freshPlan plan = list_all (\<lambda>s. status s = Pending \<and> result s = None) plan"

section \<open>The agent runtime's step execution and retry (specs/agent-runtime.md)\<close>

text \<open>
  \<^verbatim>\<open>
  async function executeStep(step: Step): Promise<StepResult> {
    if (requiresApproval(step)) {
      const approved = await requestApproval(step)
      if (!approved) {
        return { ok: false, error: 'User denied approval', skipped: true }
      }
    }
    const tool = tools[step.tool]
    if (!tool) {
      return { ok: false, error: `Unknown tool: ${step.tool}` }
    }
    const result = await tool.execute(step.args)
    await reportProgress({ ..., status: result.ok ? 'completed' : 'failed', result })
    return result
  }
  \<close>
  The result is \<open>Inl\<close> when the tool throws: this function has no \<^verbatim>\<open>try\<close>.
\<close>

record RuntimeResult = StepResult +
  skipped :: bool

definition runtime_executeStep :: "Env \<Rightarrow> Step \<Rightarrow> (string + RuntimeResult) \<times> Event list" where
  "runtime_executeStep env step =
     (if requiresApproval env step \<and> \<not> requestApproval env step then
        (Inr \<lparr>ok = False, val = Undefined, error = Some ''User denied approval'', skipped = True\<rparr>,
         [])
      else
        (case toolRegistry env (tool step) of
           None \<Rightarrow>
             (Inr \<lparr>ok = False, val = Undefined, error = Some (''Unknown tool: '' @ tool step),
                   skipped = False\<rparr>, [])
         | Some t \<Rightarrow>
             (case t (args step) of
                Throws e \<Rightarrow> (Inl e, [ToolCall (step_id step)])
              | Returns r \<Rightarrow>
                  (Inr \<lparr>ok = ok r, val = val r, error = error r, skipped = False\<rparr>,
                   [ToolCall (step_id step),
                    Emit (step_id step) (if ok r then Completed else Failed)]))))"









section \<open>The sub-agent pool (specs/sub-agents.md)\<close>

datatype AgentStatus = Idle | Busy

text \<open>\<^verbatim>\<open>return { id, worker, status: 'idle', execute: ... }\<close>; the worker handle is left out.\<close>

record SubAgent =
  agent_id :: nat
  agent_status :: AgentStatus


text \<open>
  \<^verbatim>\<open>
  class SubAgentPool {
    private agents: SubAgent[] = []
    private maxConcurrency: number
    constructor(maxConcurrency = 5) { this.maxConcurrency = maxConcurrency }
  \<close>
\<close>

record SubAgentPool =
  agents :: "SubAgent list"
  maxConcurrency :: int

definition newSubAgentPool :: "int \<Rightarrow> SubAgentPool" where
  "newSubAgentPool m = \<lparr>agents = [], maxConcurrency = m\<rparr>"

definition defaultSubAgentPool :: SubAgentPool where
  "defaultSubAgentPool = newSubAgentPool 5"








definition maxPerTask :: int where
  "maxPerTask = 5"

section \<open>Observations of a run\<close>

text \<open>The id a recorded event is tagged with.\<close>

fun event_id :: "Event \<Rightarrow> string" where
  "event_id (StatusWrite i st) = i"
| "event_id (ToolCall i) = i"
| "event_id (Emit i st) = i"

text \<open>The values assigned to \<^verbatim>\<open>step.status\<close> of the step with id \<open>i\<close>, in order.\<close>

fun statusWrites :: "string \<Rightarrow> Event list \<Rightarrow> StepStatus list" where
  "statusWrites i [] = []"
| "statusWrites i (StatusWrite j st # evs) =
     (if j = i then st # statusWrites i evs else statusWrites i evs)"
| "statusWrites i (e # evs) = statusWrites i evs"

text \<open>
  The approval gate turns the step down: \<^verbatim>\<open>requiresApproval(step)\<close> holds and
  \<^verbatim>\<open>requestApproval(step)\<close> answers no. Both are asked about the step as
  \<^verbatim>\<open>executeStep\<close> holds it at that point, already marked running.
\<close>

definition approvalDenied :: "Env \<Rightarrow> Step \<Rightarrow> bool" where
  "approvalDenied env step =
     (requiresApproval env (step\<lparr>status := Running\<rparr>) \<and>
      \<not> requestApproval env (step\<lparr>status := Running\<rparr>))"

text \<open>The step as \<^verbatim>\<open>executeStep\<close> leaves it, and the events of that call.\<close>

definition outcomeStep :: "Env \<Rightarrow> Step \<Rightarrow> Step" where
  "outcomeStep env step = fst (executeStep env step Map.empty)"



text \<open>
  What relates a step \<open>s0\<close> of the plan handed to \<^verbatim>\<open>execute\<close> to the same step \<open>s\<close>
  later in the run, given the events \<open>log\<close> so far: either the step has not been touched
  and has no status write, or it was pending, is now what \<^verbatim>\<open>executeStep\<close> made of it,
  and its status was written twice, running and then its present status.
\<close>

definition evolves :: "Env \<Rightarrow> Event list \<Rightarrow> Step \<Rightarrow> Step \<Rightarrow> bool" where
  "evolves env log s0 s =
     ((s = s0 \<and> statusWrites (step_id s0) log = []) \<or>
      (status s0 = Pending \<and> s = outcomeStep env s0 \<and>
       statusWrites (step_id s0) log = [Running, status s]))"

section \<open>Example tools, steps and plans\<close>

text \<open>
  A registry of five tools. \<^verbatim>\<open>fetch_url\<close> answers with a failure that carries a partial
  value, \<^verbatim>\<open>run_code\<close> throws, the others succeed. \<^verbatim>\<open>delete_file\<close> needs approval,
  and the user turns every request down.
\<close>

definition demoEnv :: Env where
  "demoEnv =
     \<lparr>requiresApproval = (\<lambda>s. tool s = ''delete_file''),
      requestApproval = (\<lambda>s. False),
      toolRegistry = (\<lambda>name.
        if name = ''read_file'' then
          Some (\<lambda>a. Returns \<lparr>ok = True, val = JStr ''contents'', error = None\<rparr>)
        else if name = ''write_file'' then
          Some (\<lambda>a. Returns \<lparr>ok = True, val = JStr ''written'', error = None\<rparr>)
        else if name = ''delete_file'' then
          Some (\<lambda>a. Returns \<lparr>ok = True, val = JStr ''deleted'', error = None\<rparr>)
        else if name = ''fetch_url'' then
          Some (\<lambda>a. Returns \<lparr>ok = False, val = JStr ''partial'', error = Some ''TIMEOUT''\<rparr>)
        else if name = ''run_code'' then
          Some (\<lambda>a. Throws ''EXECUTION_ERROR'')
        else None)\<rparr>"

definition fetchStep :: Step where
  "fetchStep =
     \<lparr>step_id = ''step_1'', order = 1, description = ''Fetch the data'',
      tool = ''fetch_url'', args = [(''url'', JStr ''http://example.org/data.json'')],
      dependsOn = [], status = Pending, result = None, critical = False\<rparr>"

definition writeStep :: Step where
  "writeStep =
     \<lparr>step_id = ''step_2'', order = 2, description = ''Store the data'',
      tool = ''write_file'',
      args = [(''path'', JStr ''processed.json''), (''content'', JStr ''$step_1'')],
      dependsOn = [''step_1''], status = Pending, result = None, critical = False\<rparr>"

definition readStep :: Step where
  "readStep =
     \<lparr>step_id = ''step_3'', order = 3, description = ''Read the configuration'',
      tool = ''read_file'', args = [(''path'', JStr ''config.json'')],
      dependsOn = [], status = Pending, result = None, critical = False\<rparr>"

definition deleteStep :: Step where
  "deleteStep =
     \<lparr>step_id = ''step_4'', order = 4, description = ''Delete the old backup'',
      tool = ''delete_file'', args = [(''path'', JStr ''old.bak'')],
      dependsOn = [], status = Pending, result = None, critical = False\<rparr>"

text \<open>A plan whose first step fails, with one dependent and one independent step.\<close>

definition demoPlan :: Plan where
  "demoPlan = [fetchStep, writeStep, readStep]"

text \<open>Three steps with no dependencies, listed against their \<^verbatim>\<open>order\<close> fields.\<close>

definition fanPlan :: Plan where
  "fanPlan = [deleteStep, readStep, fetchStep]"

text \<open>A plan in which every tool succeeds: read, then store what was read.\<close>

definition copyStep :: Step where
  "copyStep =
     \<lparr>step_id = ''step_5'', order = 5, description = ''Store the configuration'',
      tool = ''write_file'',
      args = [(''path'', JStr ''config.backup.json''), (''content'', JStr ''$step_3'')],
      dependsOn = [''step_3''], status = Pending, result = None, critical = False\<rparr>"

definition happyPlan :: Plan where
  "happyPlan = [readStep, copyStep]"


section \<open>Properties of the execution engine\<close>

subsection \<open>One step\<close>

lemma resume_step_indep:
  "fst (executeStep_resume env s c) = fst (executeStep_resume env s Map.empty)"
  by (simp add: executeStep_resume_def Let_def split: option.splits ToolOutcome.splits)

lemma resume_events_indep:
  "snd (snd (executeStep_resume env s c)) = snd (snd (executeStep_resume env s Map.empty))"
  by (simp add: executeStep_resume_def Let_def split: option.splits ToolOutcome.splits)

lemma executeStep_parts:
  "executeStep env s c =
     (fst (executeStep_resume env (s\<lparr>status := Running\<rparr>) c),
      fst (snd (executeStep_resume env (s\<lparr>status := Running\<rparr>) c)),
      [StatusWrite (step_id s) Running, Emit (step_id s) Running] @
        snd (snd (executeStep_resume env (s\<lparr>status := Running\<rparr>) c)))"
  by (simp add: executeStep_def executeStep_begin_def split: prod.splits)

lemma outcomeStep_resume:
  "outcomeStep env s = fst (executeStep_resume env (s\<lparr>status := Running\<rparr>) Map.empty)"
  by (simp add: outcomeStep_def executeStep_parts)




lemma outcomeStep_fields [simp]:
  "step_id (outcomeStep env s) = step_id s"
  "dependsOn (outcomeStep env s) = dependsOn s"
  "tool (outcomeStep env s) = tool s"
  "args (outcomeStep env s) = args s"
  "critical (outcomeStep env s) = critical s"
  by (simp_all add: outcomeStep_resume executeStep_resume_def Let_def
      split: option.splits ToolOutcome.splits)

lemma outcomeStep_terminal: "terminal (status (outcomeStep env s))"
  by (simp add: outcomeStep_resume executeStep_resume_def Let_def terminal_def
      split: option.splits ToolOutcome.splits)

lemma outcomeStep_not_pending [simp]: "status (outcomeStep env s) \<noteq> Pending"
  using outcomeStep_terminal [of env s] by (auto simp: terminal_def)

lemma outcomeStep_denied:
  "approvalDenied env s \<Longrightarrow> outcomeStep env s = s\<lparr>status := Skipped, result := Some deniedResult\<rparr>"
  by (simp add: outcomeStep_resume executeStep_resume_def approvalDenied_def)

lemma resume_events_ids:
  "e \<in> set (snd (snd (executeStep_resume env s c))) \<Longrightarrow> event_id e = step_id s"
  by (auto simp: executeStep_resume_def Let_def split: option.splits ToolOutcome.splits if_splits)

lemma resume_events_writes:
  "statusWrites (step_id s) (snd (snd (executeStep_resume env s c))) =
     [status (fst (executeStep_resume env s c))]"
  by (simp add: executeStep_resume_def Let_def split: option.splits ToolOutcome.splits)

lemma resume_events_toolcall:
  "ToolCall i \<in> set (snd (snd (executeStep_resume env s c))) \<Longrightarrow>
     i = step_id s \<and> \<not> (requiresApproval env s \<and> \<not> requestApproval env s)"
  by (auto simp: executeStep_resume_def Let_def split: option.splits ToolOutcome.splits if_splits)

subsection \<open>Status writes in a list of events\<close>

lemma statusWrites_append [simp]:
  "statusWrites i (xs @ ys) = statusWrites i xs @ statusWrites i ys"
  by (induction i xs rule: statusWrites.induct) simp_all

lemma statusWrites_other:
  "\<forall>e\<in>set evs. event_id e \<noteq> i \<Longrightarrow> statusWrites i evs = []"
  by (induction i evs rule: statusWrites.induct) auto

lemma statusWrites_concat:
  assumes "distinct (map step_id p)" and "s \<in> set p"
    and ids: "\<And>t e. e \<in> set (ev t) \<Longrightarrow> event_id e = step_id t"
  shows "statusWrites (step_id s) (concat (map (\<lambda>t. if R t then ev t else []) p)) =
     (if R s then statusWrites (step_id s) (ev s) else [])"
  using assms(1,2)
proof (induction p)
  case Nil
  then show ?case by simp
next
  case (Cons a p)
  have rest: "statusWrites (step_id a) (concat (map (\<lambda>t. if R t then ev t else []) p)) = []"
    using Cons.prems(1) ids
    by (intro statusWrites_other) (auto split: if_splits simp: image_iff)
  show ?case
  proof (cases "s = a")
    case True
    then show ?thesis using rest by simp
  next
    case False
    then have sp: "s \<in> set p" and ne: "step_id a \<noteq> step_id s"
      using Cons.prems by auto
    have "statusWrites (step_id s) (ev a) = []"
      using ids ne by (intro statusWrites_other) auto
    then show ?thesis using Cons.IH sp Cons.prems(1) by simp
  qed
qed

subsection \<open>One round of the loop\<close>

lemma awaitAll_Cons:
  "awaitAll env ((l, s) # rest) c =
     (if l then
        (fst (executeStep_resume env s c) #
           fst (awaitAll env rest (fst (snd (executeStep_resume env s c)))),
         fst (snd (awaitAll env rest (fst (snd (executeStep_resume env s c))))),
         snd (snd (executeStep_resume env s c)) @
           snd (snd (awaitAll env rest (fst (snd (executeStep_resume env s c))))))
      else
        (s # fst (awaitAll env rest c), fst (snd (awaitAll env rest c)),
         snd (snd (awaitAll env rest c))))"
  by (simp split: prod.splits)

lemma awaitAll_plan:
  "fst (awaitAll env xs c) =
     map (\<lambda>(l, s). if l then fst (executeStep_resume env s Map.empty) else s) xs"
proof (induction xs arbitrary: c)
  case Nil
  show ?case by simp
next
  case (Cons x xs)
  obtain l s where x: "x = (l, s)" by (cases x)
  show ?case
    using resume_step_indep [of env s c]
    by (simp only: x awaitAll_Cons Cons.IH) simp
qed

lemma awaitAll_events:
  "snd (snd (awaitAll env xs c)) =
     concat (map (\<lambda>(l, s). if l then snd (snd (executeStep_resume env s Map.empty)) else []) xs)"
proof (induction xs arbitrary: c)
  case Nil
  show ?case by simp
next
  case (Cons x xs)
  obtain l s where x: "x = (l, s)" by (cases x)
  show ?case
    using resume_events_indep [of env s c]
    by (simp only: x awaitAll_Cons Cons.IH) simp
qed

lemma tick_plan:
  "fst (tick env p c) = map (\<lambda>s. if isReady p s then outcomeStep env s else s) p"
proof -
  have "fst (tick env p c) = fst (awaitAll env (fst (launchAll p)) c)"
    by (simp add: tick_def split: prod.splits)
  then show ?thesis
    by (simp add: awaitAll_plan launchAll_def o_def outcomeStep_resume executeStep_begin_def
        if_distrib [of "\<lambda>x. case x of (l, s) \<Rightarrow> _ l s"] cong: if_cong)
qed

lemma tick_events:
  "snd (snd (tick env p c)) =
     concat (map (\<lambda>s. if isReady p s
        then [StatusWrite (step_id s) Running, Emit (step_id s) Running] else []) p) @
     concat (map (\<lambda>s. if isReady p s
        then snd (snd (executeStep_resume env (s\<lparr>status := Running\<rparr>) Map.empty)) else []) p)"
proof -
  have "snd (snd (tick env p c)) = snd (launchAll p) @ snd (snd (awaitAll env (fst (launchAll p)) c))"
    by (simp add: tick_def split: prod.splits)
  then show ?thesis
    by (simp add: awaitAll_events launchAll_def o_def executeStep_begin_def
        if_distrib [of "\<lambda>x. case x of (l, s) \<Rightarrow> _ l s"] cong: if_cong)
qed

subsection \<open>The loop and what it preserves\<close>

lemma no_remaining_no_ready: "\<not> hasRemainingSteps p \<Longrightarrow> readySteps p = []"
  by (auto simp: hasRemainingSteps_def readySteps_def isReady_def terminal_def list_ex_iff
      filter_empty_conv)

text \<open>
  The guard \<^verbatim>\<open>hasRemainingSteps(plan)\<close> decides nothing by itself: when it fails no step
  is ready, and the test on \<^verbatim>\<open>readySteps.length\<close> would leave the loop as well.
\<close>

lemma execute_loop_ready:
  "execute_loop env plan c l =
     (if readySteps plan = [] then (plan, c, l)
      else execute_loop env (fst (tick env plan c)) (fst (snd (tick env plan c)))
             (l @ snd (snd (tick env plan c))))"
  by (subst execute_loop.simps) (auto dest: no_remaining_no_ready)

lemma execute_loop_rule:
  assumes "P plan ctx log"
    and "\<And>p c l. P p c l \<Longrightarrow> readySteps p \<noteq> [] \<Longrightarrow>
           P (fst (tick env p c)) (fst (snd (tick env p c))) (l @ snd (snd (tick env p c)))"
  shows "P (fst (execute_loop env plan ctx log))
           (fst (snd (execute_loop env plan ctx log)))
           (snd (snd (execute_loop env plan ctx log))) \<and>
         readySteps (fst (execute_loop env plan ctx log)) = []"
  using assms
proof (induction env plan ctx log rule: execute_loop.induct)
  case (1 env plan ctx log)
  show ?case
  proof (cases "hasRemainingSteps plan \<and> readySteps plan \<noteq> []")
    case True
    have eq: "execute_loop env plan ctx log =
        execute_loop env (fst (tick env plan ctx)) (fst (snd (tick env plan ctx)))
          (log @ snd (snd (tick env plan ctx)))"
      using True by (subst execute_loop.simps) simp
    have "P (fst (tick env plan ctx)) (fst (snd (tick env plan ctx)))
          (log @ snd (snd (tick env plan ctx)))"
      using "1.prems" True by blast
    then show ?thesis
      unfolding eq using "1.IH" True "1.prems"(2) by blast
  next
    case False
    then have eq: "execute_loop env plan ctx log = (plan, ctx, log)"
      by (subst execute_loop.simps) auto
    show ?thesis
      using False "1.prems"(1) no_remaining_no_ready [of plan] by (auto simp: eq)
  qed
qed

lemma evolves_fields:
  "evolves env log s0 s \<Longrightarrow> step_id s = step_id s0 \<and> dependsOn s = dependsOn s0 \<and>
     critical s = critical s0 \<and> tool s = tool s0 \<and> args s = args s0"
  by (auto simp: evolves_def)

lemma evolves_ids:
  "list_all2 (evolves env log) p0 p \<Longrightarrow> map step_id p = map step_id p0"
  by (induction p0 p rule: list_all2_induct) (auto dest: evolves_fields)

lemma evolves_init: "list_all2 (evolves env []) p p"
  by (simp add: list_all2_same evolves_def)

lemma tick_statusWrites:
  assumes "distinct (map step_id p)" and "s \<in> set p"
  shows "statusWrites (step_id s) (snd (snd (tick env p c))) =
     (if isReady p s then [Running, status (outcomeStep env s)] else [])"
proof -
  have a: "statusWrites (step_id s) (concat (map (\<lambda>t. if isReady p t
        then [StatusWrite (step_id t) Running, Emit (step_id t) Running] else []) p)) =
      (if isReady p s then [Running] else [])"
    using assms by (subst statusWrites_concat) auto
  have b: "statusWrites (step_id s) (concat (map (\<lambda>t. if isReady p t
        then snd (snd (executeStep_resume env (t\<lparr>status := Running\<rparr>) Map.empty)) else []) p)) =
      (if isReady p s then [status (outcomeStep env s)] else [])"
    using assms resume_events_writes [of "s\<lparr>status := Running\<rparr>" env Map.empty]
    by (subst statusWrites_concat) (auto dest: resume_events_ids simp: outcomeStep_resume)
  show ?thesis by (simp add: tick_events a b)
qed

lemma tick_evolves:
  assumes inv: "list_all2 (evolves env log) p0 p" and dist: "distinct (map step_id p0)"
  shows "list_all2 (evolves env (log @ snd (snd (tick env p c)))) p0 (fst (tick env p c))"
proof -
  have dp: "distinct (map step_id p)" using evolves_ids [OF inv] dist by simp
  have len: "length p0 = length p" using inv by (rule list_all2_lengthD)
  show ?thesis
    unfolding list_all2_conv_all_nth tick_plan
  proof (intro conjI allI impI)
    show "length p0 = length (map (\<lambda>s. if isReady p s then outcomeStep env s else s) p)"
      using len by simp
  next
    fix k assume k: "k < length p0"
    then have kp: "k < length p" using len by simp
    have ev: "evolves env log (p0 ! k) (p ! k)"
      using inv k by (simp add: list_all2_conv_all_nth)
    have mem: "p ! k \<in> set p" using kp by simp
    have id: "step_id (p ! k) = step_id (p0 ! k)" using ev by (auto dest: evolves_fields)
    have w: "statusWrites (step_id (p0 ! k)) (snd (snd (tick env p c))) =
        (if isReady p (p ! k) then [Running, status (outcomeStep env (p ! k))] else [])"
      using tick_statusWrites [OF dp mem, of env c] id by simp
    show "evolves env (log @ snd (snd (tick env p c))) (p0 ! k)
          (map (\<lambda>s. if isReady p s then outcomeStep env s else s) p ! k)"
    proof (cases "isReady p (p ! k)")
      case True
      then have "status (p ! k) = Pending" by (simp add: isReady_def)
      with ev have same: "p ! k = p0 ! k" and none: "statusWrites (step_id (p0 ! k)) log = []"
        by (auto simp: evolves_def)
      show ?thesis
        using True same none w kp \<open>status (p ! k) = Pending\<close>
        by (simp add: evolves_def)
    next
      case False
      then show ?thesis using ev w kp by (simp add: evolves_def)
    qed
  qed
qed

lemma evolves_origin:
  assumes "list_all2 (evolves env l) p0 p" and "s \<in> set p"
  shows "\<exists>s0\<in>set p0. evolves env l s0 s"
proof -
  from assms(2) obtain k where k: "k < length p" "p ! k = s"
    by (auto simp: in_set_conv_nth)
  with assms(1) have "evolves env l (p0 ! k) s" "k < length p0"
    by (auto simp: list_all2_conv_all_nth)
  then show ?thesis by (metis nth_mem)
qed

lemma evolves_pending_mem:
  assumes "list_all2 (evolves env l) p0 p" and "s \<in> set p" and "status s = Pending"
  shows "s \<in> set p0"
  using evolves_origin [OF assms(1,2)] assms(3) by (auto simp: evolves_def)

lemma distinct_ids_eq:
  "distinct (map step_id p) \<Longrightarrow> s \<in> set p \<Longrightarrow> t \<in> set p \<Longrightarrow> step_id s = step_id t \<Longrightarrow> s = t"
  by (metis distinct_map inj_on_def)

lemma run_rule:
  assumes "P plan Map.empty []"
    and "\<And>p c l. P p c l \<Longrightarrow> readySteps p \<noteq> [] \<Longrightarrow>
           P (fst (tick env p c)) (fst (snd (tick env p c))) (l @ snd (snd (tick env p c)))"
  shows "P (finalPlan env plan) (finalContext env plan) (runEvents env plan) \<and>
         readySteps (finalPlan env plan) = []"
  unfolding finalPlan_def finalContext_def runEvents_def run_def
  by (rule execute_loop_rule) (fact assms)+

lemma run_evolves:
  assumes "distinct (map step_id plan)"
  shows "list_all2 (evolves env (runEvents env plan)) plan (finalPlan env plan) \<and>
         readySteps (finalPlan env plan) = []"
proof (rule run_rule [where P = "\<lambda>p c l. list_all2 (evolves env l) plan p"])
  show "list_all2 (evolves env []) plan plan" by (rule evolves_init)
next
  fix p c l assume "list_all2 (evolves env l) plan p"
  then show "list_all2 (evolves env (l @ snd (snd (tick env p c)))) plan (fst (tick env p c))"
    using assms by (rule tick_evolves)
qed

subsection \<open>Tool calls\<close>

lemma tick_toolcall:
  assumes "ToolCall i \<in> set (snd (snd (tick env p c)))"
  shows "\<exists>s\<in>set p. isReady p s \<and> step_id s = i \<and> \<not> approvalDenied env s"
  using assms
  by (auto simp: tick_events approvalDenied_def split: if_splits dest!: resume_events_toolcall)

lemma run_toolcalls:
  assumes dist: "distinct (map step_id plan)" and call: "ToolCall i \<in> set (runEvents env plan)"
  shows "\<exists>s\<in>set plan. step_id s = i \<and> status s = Pending \<and> \<not> approvalDenied env s"
proof -
  let ?P = "\<lambda>p (c :: ExecutionContext) l. list_all2 (evolves env l) plan p \<and>
      (\<forall>j. ToolCall j \<in> set l \<longrightarrow>
         (\<exists>s\<in>set plan. step_id s = j \<and> status s = Pending \<and> \<not> approvalDenied env s))"
  have step: "?P (fst (tick env p c)) (fst (snd (tick env p c))) (l @ snd (snd (tick env p c)))"
    if inv: "?P p c l" for p c l
  proof (intro conjI allI impI)
    show "list_all2 (evolves env (l @ snd (snd (tick env p c)))) plan (fst (tick env p c))"
      using inv tick_evolves [OF _ dist] by blast
  next
    fix j assume "ToolCall j \<in> set (l @ snd (snd (tick env p c)))"
    then consider "ToolCall j \<in> set l" | "ToolCall j \<in> set (snd (snd (tick env p c)))"
      by auto
    then show "\<exists>s\<in>set plan. step_id s = j \<and> status s = Pending \<and> \<not> approvalDenied env s"
    proof cases
      case 1
      then show ?thesis using inv by blast
    next
      case 2
      then obtain s where s: "s \<in> set p" "isReady p s" "step_id s = j" "\<not> approvalDenied env s"
        using tick_toolcall by blast
      then have "status s = Pending" by (simp add: isReady_def)
      moreover have "s \<in> set plan"
        using evolves_pending_mem inv s(1) \<open>status s = Pending\<close> by blast
      ultimately show ?thesis using s by blast
    qed
  qed
  have init: "?P plan Map.empty []" using evolves_init by simp
  have "?P (finalPlan env plan) (finalContext env plan) (runEvents env plan) \<and>
      readySteps (finalPlan env plan) = []"
    by (rule run_rule [where P = ?P, OF init]) (rule step)
  then show ?thesis using call by blast
qed

subsection \<open>Dependencies of the steps that ran\<close>

lemma find_map_ids:
  "(\<And>t. step_id (g t) = step_id t) \<Longrightarrow>
     find (\<lambda>t. step_id t = d) (map g p) = map_option g (find (\<lambda>t. step_id t = d) p)"
  by (induction p) simp_all

lemma allDependenciesSatisfied_map:
  assumes "allDependenciesSatisfied s p"
    and "\<And>t. step_id (g t) = step_id t"
    and "\<And>t. status t = Completed \<Longrightarrow> status (g t) = Completed"
    and "dependsOn s' = dependsOn s"
  shows "allDependenciesSatisfied s' (map g p)"
  using assms
  by (auto simp: allDependenciesSatisfied_def list_all_iff find_map_ids split: option.splits)

lemma tick_deps:
  assumes "\<forall>s\<in>set p. status s \<noteq> Pending \<longrightarrow> allDependenciesSatisfied s p"
  shows "\<forall>s\<in>set (fst (tick env p c)). status s \<noteq> Pending \<longrightarrow>
           allDependenciesSatisfied s (fst (tick env p c))"
proof
  let ?g = "\<lambda>s. if isReady p s then outcomeStep env s else s"
  fix s' assume "s' \<in> set (fst (tick env p c))"
  then obtain s where s: "s \<in> set p" "s' = ?g s" by (auto simp: tick_plan)
  have sat: "status s' \<noteq> Pending \<Longrightarrow> allDependenciesSatisfied s p"
    using s assms by (auto simp: isReady_def split: if_splits)
  have "allDependenciesSatisfied s' (map ?g p)" if "status s' \<noteq> Pending"
  proof (rule allDependenciesSatisfied_map [OF sat [OF that]])
    show "step_id (?g t) = step_id t" for t by simp
    show "status t = Completed \<Longrightarrow> status (?g t) = Completed" for t
      by (simp add: isReady_def)
    show "dependsOn s' = dependsOn s" using s by simp
  qed
  then show "status s' \<noteq> Pending \<longrightarrow> allDependenciesSatisfied s' (fst (tick env p c))"
    by (simp add: tick_plan)
qed

lemma run_deps:
  assumes "freshPlan plan"
  shows "\<forall>s\<in>set (finalPlan env plan). status s \<noteq> Pending \<longrightarrow>
           allDependenciesSatisfied s (finalPlan env plan)"
proof -
  let ?P = "\<lambda>p (c :: ExecutionContext) (l :: Event list).
      \<forall>s\<in>set p. status s \<noteq> Pending \<longrightarrow> allDependenciesSatisfied s p"
  have init: "?P plan Map.empty []"
    using assms by (auto simp: freshPlan_def list_all_iff)
  have "?P (finalPlan env plan) (finalContext env plan) (runEvents env plan) \<and>
      readySteps (finalPlan env plan) = []"
    by (rule run_rule [where P = ?P, OF init]) (rule tick_deps)
  then show ?thesis by blast
qed

lemma dep_not_completed_pending:
  assumes "status s \<noteq> Pending \<longrightarrow> allDependenciesSatisfied s p"
    and "d \<in> set (dependsOn s)"
    and "\<forall>t\<in>set p. step_id t = d \<longrightarrow> status t \<noteq> Completed"
  shows "status s = Pending"
proof (rule ccontr)
  assume "status s \<noteq> Pending"
  with assms(1,2) obtain t where "find (\<lambda>t. step_id t = d) p = Some t" "status t = Completed"
    by (auto simp: allDependenciesSatisfied_def list_all_iff split: option.splits)
  then have "t \<in> set p \<and> step_id t = d \<and> status t = Completed"
    by (auto simp: find_Some_iff)
  with assms(3) show False by blast
qed

subsection \<open>The example runs, evaluated\<close>

lemmas demo_defs = demoEnv_def demoPlan_def fanPlan_def fetchStep_def writeStep_def readStep_def
  deleteStep_def

lemmas engine_defs = run_def finalPlan_def finalContext_def runEvents_def
  hasRemainingSteps_def terminal_def readySteps_def isReady_def allDependenciesSatisfied_def
  tick_def launchAll_def executeStep_begin_def executeStep_resume_def ctx_set_def
  deniedResult_def thrownResult_def

lemma demo_finalPlan:
  "finalPlan demoEnv demoPlan =
     [fetchStep\<lparr>status := Failed,
        result := Some \<lparr>ok = False, val = JStr ''partial'', error = Some ''TIMEOUT''\<rparr>\<rparr>,
      writeStep,
      readStep\<lparr>status := Completed,
        result := Some \<lparr>ok = True, val = JStr ''contents'', error = None\<rparr>\<rparr>]"
  by (simp add: execute_loop.simps engine_defs demo_defs)

lemma demo_runEvents:
  "runEvents demoEnv demoPlan =
     [StatusWrite ''step_1'' Running, Emit ''step_1'' Running,
      StatusWrite ''step_3'' Running, Emit ''step_3'' Running,
      ToolCall ''step_1'', StatusWrite ''step_1'' Failed, Emit ''step_1'' Failed,
      ToolCall ''step_3'', StatusWrite ''step_3'' Completed, Emit ''step_3'' Completed]"
  by (simp add: execute_loop.simps engine_defs demo_defs)

lemma demo_finalContext:
  "finalContext demoEnv demoPlan = [''step_1'' \<mapsto> JStr ''partial'', ''step_3'' \<mapsto> JStr ''contents'']"
  by (simp add: execute_loop.simps engine_defs demo_defs)

lemma acyclic_empty: "acyclic ({} :: (string \<times> string) set)"
  by (simp add: acyclic_def)

lemma demoPlan_valid: "validPlan demoPlan \<and> freshPlan demoPlan"
  by (simp add: validPlan_def freshPlan_def depEdges_def demo_defs acyclic_empty)


subsection \<open>The state a run ends in\<close>

lemma validPlan_distinct: "validPlan plan \<Longrightarrow> distinct (map step_id plan)"
  by (simp add: validPlan_def)

lemma final_step_cases:
  assumes dist: "distinct (map step_id plan)" and fresh: "freshPlan plan"
    and s: "s \<in> set (finalPlan env plan)"
  shows "(s \<in> set plan \<and> status s = Pending \<and> result s = None \<and>
          statusWrites (step_id s) (runEvents env plan) = [] \<and>
          \<not> allDependenciesSatisfied s (finalPlan env plan)) \<or>
         (\<exists>s0\<in>set plan. s = outcomeStep env s0 \<and> terminal (status s) \<and>
          statusWrites (step_id s) (runEvents env plan) = [Running, status s])"
proof -
  from run_evolves [OF dist, of env]
  have ev: "list_all2 (evolves env (runEvents env plan)) plan (finalPlan env plan)"
    and nr: "readySteps (finalPlan env plan) = []" by simp_all
  from evolves_origin [OF ev s] obtain s0 where s0: "s0 \<in> set plan"
    "evolves env (runEvents env plan) s0 s" by blast
  have p0: "status s0 = Pending" "result s0 = None"
    using fresh s0(1) by (auto simp: freshPlan_def list_all_iff)
  from s0(2) show ?thesis
    unfolding evolves_def
  proof (elim disjE conjE)
    assume same: "s = s0" and w: "statusWrites (step_id s0) (runEvents env plan) = []"
    have "\<not> isReady (finalPlan env plan) s"
      using nr s by (auto simp: readySteps_def filter_empty_conv)
    then have "\<not> allDependenciesSatisfied s (finalPlan env plan)"
      using same p0 by (simp add: isReady_def)
    then show ?thesis using same w p0 s0(1) by simp
  next
    assume "s = outcomeStep env s0"
      and "statusWrites (step_id s0) (runEvents env plan) = [Running, status s]"
    then show ?thesis using s0(1) outcomeStep_terminal [of env s0] by auto
  qed
qed

lemma final_ids:
  "distinct (map step_id plan) \<Longrightarrow> map step_id (finalPlan env plan) = map step_id plan"
  using run_evolves [of plan env] by (auto dest: evolves_ids)

lemma final_status_cases:
  assumes "distinct (map step_id plan)" and "freshPlan plan" and "s \<in> set (finalPlan env plan)"
  shows "status s = Pending \<or> status s = Completed \<or> status s = Failed \<or> status s = Skipped"
  using final_step_cases [OF assms] by (auto simp: terminal_def)

lemma final_origin:
  assumes dist: "distinct (map step_id plan)" and s: "s \<in> set (finalPlan env plan)"
  shows "\<exists>s0\<in>set plan. step_id s0 = step_id s \<and> dependsOn s0 = dependsOn s \<and>
           critical s0 = critical s \<and> (s = s0 \<or> (status s0 = Pending \<and> s = outcomeStep env s0))"
proof -
  from run_evolves [OF dist, of env]
  have ev: "list_all2 (evolves env (runEvents env plan)) plan (finalPlan env plan)" by simp
  from evolves_origin [OF ev s] obtain s0 where "s0 \<in> set plan"
    "evolves env (runEvents env plan) s0 s" by blast
  then show ?thesis by (auto simp: evolves_def)
qed

lemma depEdges_mem:
  "s \<in> set plan \<Longrightarrow> d \<in> set (dependsOn s) \<Longrightarrow> (d, step_id s) \<in> depEdges plan"
  by (auto simp: depEdges_def)

lemma depEdges_elim:
  "(d, i) \<in> depEdges plan \<Longrightarrow> \<exists>s\<in>set plan. step_id s = i \<and> d \<in> set (dependsOn s)"
  by (auto simp: depEdges_def)

lemma finite_depEdges: "finite (depEdges plan)"
  by (simp add: depEdges_def)

text \<open>A step left pending has a failed or skipped step among its transitive prerequisites.\<close>

lemma pending_has_cause:
  assumes valid: "validPlan plan" and fresh: "freshPlan plan"
  shows "\<forall>s\<in>set (finalPlan env plan). step_id s = i \<longrightarrow> status s = Pending \<longrightarrow>
     (\<exists>f\<in>set (finalPlan env plan). (status f = Failed \<or> status f = Skipped) \<and>
        (step_id f, i) \<in> (depEdges plan)\<^sup>+)"
proof -
  let ?fp = "finalPlan env plan"
  have dist: "distinct (map step_id plan)" using valid by (rule validPlan_distinct)
  have wf: "wf (depEdges plan)"
    using valid by (intro finite_acyclic_wf finite_depEdges) (simp add: validPlan_def)
  have ids: "map step_id ?fp = map step_id plan" using dist by (rule final_ids)
  show ?thesis
    using wf
  proof (induction i rule: wf_induct_rule)
    case (less i)
    show ?case
    proof (intro ballI impI)
      fix s assume s: "s \<in> set ?fp" and i: "step_id s = i" and pend: "status s = Pending"
      from final_step_cases [OF dist fresh s] pend
      have s0: "s \<in> set plan" and unsat: "\<not> allDependenciesSatisfied s ?fp"
        by (auto simp: terminal_def)
      from unsat obtain d where d: "d \<in> set (dependsOn s)"
        and bad: "case find (\<lambda>t. step_id t = d) ?fp of None \<Rightarrow> True | Some t \<Rightarrow> status t \<noteq> Completed"
        by (auto simp: allDependenciesSatisfied_def list_all_iff split: option.splits)
      have edge: "(d, i) \<in> depEdges plan" using depEdges_mem [OF s0 d] i by simp
      have "find (\<lambda>t. step_id t = d) plan \<noteq> None"
        using valid s0 d by (auto simp: validPlan_def list_all_iff)
      then have "d \<in> set (map step_id plan)"
        by (auto simp: find_None_iff)
      then have "d \<in> set (map step_id ?fp)" using ids by simp
      then have "find (\<lambda>t. step_id t = d) ?fp \<noteq> None"
        by (auto simp: find_None_iff)
      with bad obtain t where t: "find (\<lambda>t. step_id t = d) ?fp = Some t" "status t \<noteq> Completed"
        by (auto split: option.splits)
      then have tm: "t \<in> set ?fp" and tid: "step_id t = d"
        by (auto simp: find_Some_iff)
      from final_status_cases [OF dist fresh tm] t(2)
      consider "status t = Failed \<or> status t = Skipped" | "status t = Pending" by blast
      then show "\<exists>f\<in>set ?fp. (status f = Failed \<or> status f = Skipped) \<and>
          (step_id f, i) \<in> (depEdges plan)\<^sup>+"
      proof cases
        case 1
        then show ?thesis using tm tid edge by blast
      next
        case 2
        with less.IH [OF edge] tm tid obtain f where "f \<in> set ?fp"
          "status f = Failed \<or> status f = Skipped" "(step_id f, d) \<in> (depEdges plan)\<^sup>+"
          by blast
        then show ?thesis using edge by (blast intro: trancl_into_trancl)
      qed
    qed
  qed
qed

text \<open>The transitive dependents of a step that did not complete are left pending.\<close>

lemma dependents_stay_pending:
  assumes dist: "distinct (map step_id plan)" and fresh: "freshPlan plan"
    and f: "f \<in> set (finalPlan env plan)" and nc: "status f \<noteq> Completed"
    and path: "(step_id f, i) \<in> (depEdges plan)\<^sup>+"
  shows "\<forall>s\<in>set (finalPlan env plan). step_id s = i \<longrightarrow> status s = Pending"
proof -
  let ?fp = "finalPlan env plan"
  have dfp: "distinct (map step_id ?fp)" using final_ids [OF dist, of env] dist by simp
  have deps: "\<forall>s\<in>set ?fp. status s \<noteq> Pending \<longrightarrow> allDependenciesSatisfied s ?fp"
    using fresh by (rule run_deps)
  have blocked: "\<forall>s\<in>set ?fp. step_id s = z \<longrightarrow> status s = Pending"
    if edge: "(y, z) \<in> depEdges plan"
      and src: "\<forall>t\<in>set ?fp. step_id t = y \<longrightarrow> status t \<noteq> Completed" for y z
  proof (intro ballI impI)
    fix s assume s: "s \<in> set ?fp" and z: "step_id s = z"
    from depEdges_elim [OF edge] obtain s1 where s1: "s1 \<in> set plan" "step_id s1 = z"
      "y \<in> set (dependsOn s1)" by blast
    from final_origin [OF dist s] obtain s0 where s0: "s0 \<in> set plan" "step_id s0 = step_id s"
      "dependsOn s0 = dependsOn s" by blast
    have "s0 = s1" using distinct_ids_eq [OF dist s0(1) s1(1)] s0(2) s1(2) z by simp
    then have "y \<in> set (dependsOn s)" using s1(3) s0(3) by simp
    then show "status s = Pending"
      using dep_not_completed_pending [of s ?fp y] deps s src by blast
  qed
  from path show ?thesis
  proof (induction rule: trancl_induct)
    case (base y)
    have "\<forall>t\<in>set ?fp. step_id t = step_id f \<longrightarrow> status t \<noteq> Completed"
      using distinct_ids_eq [OF dfp _ f] nc by blast
    then show ?case using blocked [OF base] by blast
  next
    case (step y z)
    have "\<forall>t\<in>set ?fp. step_id t = y \<longrightarrow> status t \<noteq> Completed"
      using step.IH by auto
    then show ?case using blocked [OF step.hyps(2)] by blast
  qed
qed

subsection \<open>Terminal statuses and dispatch\<close>

lemma happy_finalPlan:
  "finalPlan demoEnv happyPlan =
     [readStep\<lparr>status := Completed,
        result := Some \<lparr>ok = True, val = JStr ''contents'', error = None\<rparr>\<rparr>,
      copyStep\<lparr>status := Completed,
        result := Some \<lparr>ok = True, val = JStr ''written'', error = None\<rparr>\<rparr>]"
  by (simp add: execute_loop.simps engine_defs demo_defs happyPlan_def copyStep_def)

lemma happyPlan_valid: "validPlan happyPlan \<and> freshPlan happyPlan"
  by (simp add: validPlan_def freshPlan_def depEdges_def demo_defs acyclic_empty happyPlan_def
      copyStep_def)

text \<open>
  C1, as stated, fails: in the valid plan \<open>demoPlan\<close> the first step fails, and its dependent
  is left in status pending when the run ends; pending is not a terminal status.
\<close>

theorem engine_leaves_dependents_pending_counterexample:
  "validPlan demoPlan \<and> freshPlan demoPlan \<and>
   map status (finalPlan demoEnv demoPlan) = [Failed, Pending, Completed] \<and>
   \<not> terminal Pending"
  using demoPlan_valid
  by (simp add: demo_finalPlan terminal_def writeStep_def)

text \<open>
  C1, amended: for every valid plan whose steps all start pending, the run ends and keeps the
  steps and their order. A step is never dispatched twice: by the end each step either has
  had its status written exactly twice, running and then the terminal status it ends in, or
  has never been written to, is still pending, and has a prerequisite that is not completed.
  If no step ends failed or skipped, every step ends completed.
\<close>

theorem engine_status_history:
  assumes "validPlan plan" and "freshPlan plan"
  shows "map step_id (finalPlan env plan) = map step_id plan \<and>
    (\<forall>s\<in>set (finalPlan env plan).
       (terminal (status s) \<and>
        statusWrites (step_id s) (runEvents env plan) = [Running, status s]) \<or>
       (status s = Pending \<and>
        statusWrites (step_id s) (runEvents env plan) = [] \<and>
        \<not> allDependenciesSatisfied s (finalPlan env plan))) \<and>
    ((\<forall>s\<in>set (finalPlan env plan). status s \<noteq> Failed \<and> status s \<noteq> Skipped) \<longrightarrow>
     (\<forall>s\<in>set (finalPlan env plan). status s = Completed))"
proof (intro conjI ballI impI)
  have dist: "distinct (map step_id plan)" using assms(1) by (rule validPlan_distinct)
  show "map step_id (finalPlan env plan) = map step_id plan"
    using dist by (rule final_ids)
  show "(terminal (status s) \<and>
        statusWrites (step_id s) (runEvents env plan) = [Running, status s]) \<or>
       (status s = Pending \<and>
        statusWrites (step_id s) (runEvents env plan) = [] \<and>
        \<not> allDependenciesSatisfied s (finalPlan env plan))"
    if "s \<in> set (finalPlan env plan)" for s
    using final_step_cases [OF dist assms(2) that] by blast
  show "status s = Completed"
    if none: "\<forall>s\<in>set (finalPlan env plan). status s \<noteq> Failed \<and> status s \<noteq> Skipped"
      and s: "s \<in> set (finalPlan env plan)" for s
  proof -
    have "status s \<noteq> Pending"
      using pending_has_cause [OF assms, of env "step_id s"] none s by blast
    then show ?thesis
      using final_status_cases [OF dist assms(2) s] none s by blast
  qed
qed

lemma happy_runEvents:
  "runEvents demoEnv happyPlan =
     [StatusWrite ''step_3'' Running, Emit ''step_3'' Running,
      ToolCall ''step_3'', StatusWrite ''step_3'' Completed, Emit ''step_3'' Completed,
      StatusWrite ''step_5'' Running, Emit ''step_5'' Running,
      ToolCall ''step_5'', StatusWrite ''step_5'' Completed, Emit ''step_5'' Completed]"
  by (simp add: execute_loop.simps engine_defs demo_defs happyPlan_def copyStep_def)

text \<open>C1, witness: the plan \<open>happyPlan\<close>, whose two steps both complete.\<close>

theorem engine_status_history_witness:
  "validPlan happyPlan \<and> freshPlan happyPlan \<and>
   map step_id (finalPlan demoEnv happyPlan) = [''step_3'', ''step_5''] \<and>
   map status (finalPlan demoEnv happyPlan) = [Completed, Completed] \<and>
   statusWrites ''step_3'' (runEvents demoEnv happyPlan) = [Running, Completed] \<and>
   statusWrites ''step_5'' (runEvents demoEnv happyPlan) = [Running, Completed]"
proof -
  have v: "validPlan happyPlan" and f: "freshPlan happyPlan"
    using happyPlan_valid by simp_all
  have "map step_id (finalPlan demoEnv happyPlan) = map step_id happyPlan"
    using engine_status_history [OF v f, of demoEnv] by (rule conjunct1)
  then have ids: "map step_id (finalPlan demoEnv happyPlan) = [''step_3'', ''step_5'']"
    by (simp add: happyPlan_def readStep_def copyStep_def)
  have st: "map status (finalPlan demoEnv happyPlan) = [Completed, Completed]"
    by (simp add: happy_finalPlan)
  have w3: "statusWrites ''step_3'' (runEvents demoEnv happyPlan) = [Running, Completed]"
    by (simp add: happy_runEvents)
  have w5: "statusWrites ''step_5'' (runEvents demoEnv happyPlan) = [Running, Completed]"
    by (simp add: happy_runEvents)
  show ?thesis
    using v f ids st w3 w5 by simp
qed

subsection \<open>The dependents of a failed step\<close>

lemma demo_depEdges: "depEdges demoPlan = {(''step_1'', ''step_2'')}"
  by (simp add: depEdges_def demo_defs)

text \<open>
  C2, as stated, fails: in \<open>demoPlan\<close> the first step fails, and the step that depends on it
  ends pending, not skipped, with no result and so no reason recorded.
\<close>

theorem failed_dependents_not_skipped_counterexample:
  "validPlan demoPlan \<and> freshPlan demoPlan \<and>
   status (finalPlan demoEnv demoPlan ! 0) = Failed \<and>
   step_id (finalPlan demoEnv demoPlan ! 0) \<in> set (dependsOn (finalPlan demoEnv demoPlan ! 1)) \<and>
   status (finalPlan demoEnv demoPlan ! 1) = Pending \<and>
   status (finalPlan demoEnv demoPlan ! 1) \<noteq> Skipped \<and>
   result (finalPlan demoEnv demoPlan ! 1) = None"
  using demoPlan_valid
  by (simp add: demo_finalPlan fetchStep_def writeStep_def)

text \<open>
  C2, amended: in every valid plan whose steps all start pending, every direct or transitive
  dependent of a failed step is never dispatched: it ends pending, with no result and no
  status write. Every step that neither fails nor is skipped, and that no failed or skipped
  step reaches along the dependencies, ends completed, as \<^verbatim>\<open>executeStep\<close> alone leaves it.
  The engine reads no \<^verbatim>\<open>critical\<close> flag, so this holds for critical steps as well.
\<close>

theorem failed_step_blocks_dependents:
  assumes "validPlan plan" and "freshPlan plan"
  shows "(\<forall>f\<in>set (finalPlan env plan). \<forall>s\<in>set (finalPlan env plan).
            status f = Failed \<longrightarrow> (step_id f, step_id s) \<in> (depEdges plan)\<^sup>+ \<longrightarrow>
            status s = Pending \<and> result s = None \<and>
            statusWrites (step_id s) (runEvents env plan) = []) \<and>
         (\<forall>s\<in>set (finalPlan env plan).
            status s \<noteq> Failed \<longrightarrow> status s \<noteq> Skipped \<longrightarrow>
            (\<forall>f\<in>set (finalPlan env plan). status f = Failed \<or> status f = Skipped \<longrightarrow>
               (step_id f, step_id s) \<notin> (depEdges plan)\<^sup>+) \<longrightarrow>
            status s = Completed \<and> s \<in> outcomeStep env ` set plan)"
proof (intro conjI ballI impI)
  have dist: "distinct (map step_id plan)" using assms(1) by (rule validPlan_distinct)
  {
    fix f s
    assume f: "f \<in> set (finalPlan env plan)" and s: "s \<in> set (finalPlan env plan)"
      and failed: "status f = Failed"
      and path: "(step_id f, step_id s) \<in> (depEdges plan)\<^sup>+"
    have pend: "status s = Pending"
      using dependents_stay_pending [OF dist assms(2) f _ path] failed s by simp
    with final_step_cases [OF dist assms(2) s]
    have "result s = None \<and> statusWrites (step_id s) (runEvents env plan) = []"
      by (auto simp: terminal_def)
    with pend show "status s = Pending" "result s = None"
      "statusWrites (step_id s) (runEvents env plan) = []" by simp_all
  }
  {
    fix s
    assume s: "s \<in> set (finalPlan env plan)"
      and nf: "status s \<noteq> Failed" and ns: "status s \<noteq> Skipped"
      and indep: "\<forall>f\<in>set (finalPlan env plan). status f = Failed \<or> status f = Skipped \<longrightarrow>
               (step_id f, step_id s) \<notin> (depEdges plan)\<^sup>+"
    have np: "status s \<noteq> Pending"
      using pending_has_cause [OF assms, of env "step_id s"] indep s by blast
    then show "status s = Completed"
      using final_status_cases [OF dist assms(2) s] nf ns by blast
    show "s \<in> outcomeStep env ` set plan"
      using final_step_cases [OF dist assms(2) s] np by auto
  }
qed

text \<open>C2, witness: \<open>demoPlan\<close>, with a failed step, its dependent and an independent step.\<close>

theorem failed_step_blocks_dependents_witness:
  "validPlan demoPlan \<and> freshPlan demoPlan \<and>
   status (finalPlan demoEnv demoPlan ! 0) = Failed \<and>
   (step_id (finalPlan demoEnv demoPlan ! 0), step_id (finalPlan demoEnv demoPlan ! 1))
      \<in> (depEdges demoPlan)\<^sup>+ \<and>
   status (finalPlan demoEnv demoPlan ! 1) = Pending \<and>
   result (finalPlan demoEnv demoPlan ! 1) = None \<and>
   statusWrites ''step_2'' (runEvents demoEnv demoPlan) = [] \<and>
   (''step_1'', step_id (finalPlan demoEnv demoPlan ! 2)) \<notin> (depEdges demoPlan)\<^sup>+ \<and>
   status (finalPlan demoEnv demoPlan ! 2) = Completed"
proof -
  have v: "validPlan demoPlan" and fr: "freshPlan demoPlan"
    using demoPlan_valid by simp_all
  let ?fp = "finalPlan demoEnv demoPlan"
  note inst = failed_step_blocks_dependents [OF v fr, of demoEnv]
  have mem: "?fp ! 0 \<in> set ?fp" "?fp ! 1 \<in> set ?fp" "?fp ! 2 \<in> set ?fp"
    by (simp_all add: demo_finalPlan)
  have st0: "status (?fp ! 0) = Failed" by (simp add: demo_finalPlan)
  have ids: "step_id (?fp ! 0) = ''step_1''" "step_id (?fp ! 1) = ''step_2''"
    "step_id (?fp ! 2) = ''step_3''"
    by (simp_all add: demo_finalPlan fetchStep_def writeStep_def readStep_def)
  have path: "(step_id (?fp ! 0), step_id (?fp ! 1)) \<in> (depEdges demoPlan)\<^sup>+"
    using ids by (simp add: demo_depEdges trancl_insert)
  from inst mem(1,2) st0 path
  have dep: "status (?fp ! 1) = Pending \<and> result (?fp ! 1) = None \<and>
      statusWrites (step_id (?fp ! 1)) (runEvents demoEnv demoPlan) = []"
    by blast
  have nopath: "(''step_1'', step_id (?fp ! 2)) \<notin> (depEdges demoPlan)\<^sup>+"
    using ids by (simp add: demo_depEdges trancl_insert)
  have others: "\<forall>f\<in>set ?fp. status f = Failed \<or> status f = Skipped \<longrightarrow>
      (step_id f, step_id (?fp ! 2)) \<notin> (depEdges demoPlan)\<^sup>+"
    by (simp add: demo_finalPlan demo_depEdges trancl_insert fetchStep_def writeStep_def
        readStep_def)
  have st2: "status (?fp ! 2) \<noteq> Failed" "status (?fp ! 2) \<noteq> Skipped"
    by (simp_all add: demo_finalPlan)
  from inst mem(3) st2 others have "status (?fp ! 2) = Completed" by blast
  then show ?thesis using v fr st0 path dep nopath ids by simp
qed

subsection \<open>Approval denial\<close>

lemma executeStep_denied:
  assumes "approvalDenied env step"
  shows "executeStep env step c =
     (step\<lparr>status := Skipped,
        result := Some \<lparr>ok = False, val = Undefined, error = Some ''User denied approval''\<rparr>\<rparr>,
      c,
      [StatusWrite (step_id step) Running, Emit (step_id step) Running,
       StatusWrite (step_id step) Skipped])"
  using assms
  by (simp add: executeStep_parts executeStep_resume_def approvalDenied_def deniedResult_def)

lemma final_denied_step:
  assumes den: "approvalDenied env step" and dist: "distinct (map step_id plan)"
    and mem: "step \<in> set plan" and t: "t \<in> set (finalPlan env plan)"
    and same: "step_id t = step_id step"
  shows "t = step \<or> t = step\<lparr>status := Skipped, result := Some deniedResult\<rparr>"
proof -
  from final_origin [OF dist t] obtain s0 where s0: "s0 \<in> set plan" "step_id s0 = step_id t"
    "t = s0 \<or> t = outcomeStep env s0" by blast
  have "s0 = step" using distinct_ids_eq [OF dist s0(1) mem] s0(2) same by simp
  then show ?thesis using s0(3) outcomeStep_denied [OF den] by auto
qed

lemma overall_failed_cause:
  "overallStatus (summarize p c) = RunFailed \<Longrightarrow> \<exists>t\<in>set p. status t = Failed \<and> critical t"
  by (auto simp: summarize_def list_ex_iff split: if_splits)

lemma demo_deleteStep_denied: "approvalDenied demoEnv deleteStep"
  by (simp add: approvalDenied_def demoEnv_def deleteStep_def)

lemma delete_finalPlan:
  "finalPlan demoEnv [deleteStep] =
     [deleteStep\<lparr>status := Skipped,
        result := Some \<lparr>ok = False, val = Undefined, error = Some ''User denied approval''\<rparr>\<rparr>]"
  by (simp add: execute_loop.simps engine_defs demo_defs)

lemma delete_runEvents:
  "runEvents demoEnv [deleteStep] =
     [StatusWrite ''step_4'' Running, Emit ''step_4'' Running, StatusWrite ''step_4'' Skipped]"
  by (simp add: execute_loop.simps engine_defs demo_defs)

text \<open>
  C3, as stated, fails on the text of the result: the result of a denied step carries the
  error \<^verbatim>\<open>'User denied approval'\<close>, not \<^verbatim>\<open>'approval denied'\<close>.
\<close>

theorem denied_result_text_counterexample:
  "approvalDenied demoEnv deleteStep \<and>
   status (fst (executeStep demoEnv deleteStep Map.empty)) = Skipped \<and>
   result (fst (executeStep demoEnv deleteStep Map.empty)) =
     Some \<lparr>ok = False, val = Undefined, error = Some ''User denied approval''\<rparr> \<and>
   result (fst (executeStep demoEnv deleteStep Map.empty)) \<noteq>
     Some \<lparr>ok = False, val = Undefined, error = Some ''approval denied''\<rparr>"
  using demo_deleteStep_denied
  by (simp add: executeStep_denied)

text \<open>
  C3, amended: for every step that the approval gate turns down, \<^verbatim>\<open>executeStep\<close> ends
  with the step's status skipped and its result
  \<^verbatim>\<open>{ ok: false, error: 'User denied approval' }\<close>, and leaves the context as it was. In a
  run of a plan with distinct step ids in which that step starts pending, the step never ends
  failed (it ends skipped, or pending when it was never dispatched), and the denial does not
  make the run fail: whenever the overall status is failed, some other step, flagged critical,
  has failed.
\<close>

theorem denied_step_is_skipped:
  assumes "approvalDenied env step"
  shows "executeStep env step c =
     (step\<lparr>status := Skipped,
        result := Some \<lparr>ok = False, val = Undefined, error = Some ''User denied approval''\<rparr>\<rparr>,
      c,
      [StatusWrite (step_id step) Running, Emit (step_id step) Running,
       StatusWrite (step_id step) Skipped]) \<and>
    (distinct (map step_id plan) \<and> step \<in> set plan \<and> status step = Pending \<longrightarrow>
       (\<forall>t\<in>set (finalPlan env plan). step_id t = step_id step \<longrightarrow>
          status t = Pending \<or> status t = Skipped) \<and>
       (overallStatus (execute env plan) = RunFailed \<longrightarrow>
          (\<exists>t\<in>set (finalPlan env plan).
             step_id t \<noteq> step_id step \<and> status t = Failed \<and> critical t)))"
proof (intro conjI impI ballI)
  show "executeStep env step c =
     (step\<lparr>status := Skipped,
        result := Some \<lparr>ok = False, val = Undefined, error = Some ''User denied approval''\<rparr>\<rparr>,
      c,
      [StatusWrite (step_id step) Running, Emit (step_id step) Running,
       StatusWrite (step_id step) Skipped])"
    using assms by (rule executeStep_denied)
next
  fix t
  assume h: "distinct (map step_id plan) \<and> step \<in> set plan \<and> status step = Pending"
    and t: "t \<in> set (finalPlan env plan)" and same: "step_id t = step_id step"
  show "status t = Pending \<or> status t = Skipped"
    using final_denied_step [OF assms _ _ t same] h by auto
next
  assume h: "distinct (map step_id plan) \<and> step \<in> set plan \<and> status step = Pending"
    and failed: "overallStatus (execute env plan) = RunFailed"
  from failed obtain t where t: "t \<in> set (finalPlan env plan)" "status t = Failed" "critical t"
    unfolding execute_def by (blast dest: overall_failed_cause)
  have "step_id t \<noteq> step_id step"
  proof
    assume "step_id t = step_id step"
    then have "status t = Pending \<or> status t = Skipped"
      using final_denied_step [OF assms _ _ t(1)] h by auto
    with t(2) show False by simp
  qed
  with t show "\<exists>t\<in>set (finalPlan env plan).
      step_id t \<noteq> step_id step \<and> status t = Failed \<and> critical t" by blast
qed

text \<open>C3, witness: a plan of one step that needs approval, with a user who says no.\<close>

theorem denied_step_is_skipped_witness:
  "approvalDenied demoEnv deleteStep \<and>
   distinct (map step_id [deleteStep]) \<and> deleteStep \<in> set [deleteStep] \<and>
   status deleteStep = Pending \<and>
   map status (finalPlan demoEnv [deleteStep]) = [Skipped] \<and>
   overallStatus (execute demoEnv [deleteStep]) = RunCompleted \<and>
   overallStatus (execute demoEnv [deleteStep]) \<noteq> RunFailed"
proof -
  have st: "status deleteStep = Pending" by (simp add: deleteStep_def)
  have fin: "map status (finalPlan demoEnv [deleteStep]) = [Skipped]"
    by (simp add: delete_finalPlan)
  have "\<not> (\<exists>t\<in>set (finalPlan demoEnv [deleteStep]).
      step_id t \<noteq> step_id deleteStep \<and> status t = Failed \<and> critical t)"
    by (simp add: delete_finalPlan)
  with denied_step_is_skipped [OF demo_deleteStep_denied, of Map.empty "[deleteStep]"] st
  have nf: "overallStatus (execute demoEnv [deleteStep]) \<noteq> RunFailed" by auto
  have ov: "overallStatus (execute demoEnv [deleteStep]) = RunCompleted"
    by (simp add: execute_def summarize_def delete_finalPlan)
  show ?thesis using demo_deleteStep_denied st fin nf ov by simp
qed

subsection \<open>What a denied step leaves behind\<close>

lemma resume_ctx:
  "fst (snd (executeStep_resume env s c)) i \<noteq> c i \<Longrightarrow>
     ToolCall i \<in> set (snd (snd (executeStep_resume env s c)))"
  by (auto simp: executeStep_resume_def Let_def ctx_set_def
      split: option.splits ToolOutcome.splits if_splits)

lemma awaitAll_ctx:
  "fst (snd (awaitAll env xs c)) i \<noteq> c i \<Longrightarrow> ToolCall i \<in> set (snd (snd (awaitAll env xs c)))"
proof (induction xs arbitrary: c)
  case Nil
  then show ?case by simp
next
  case (Cons x xs)
  obtain l s where x: "x = (l, s)" by (cases x)
  show ?case
  proof (cases l)
    case False
    then show ?thesis using Cons by (simp add: x awaitAll_Cons del: awaitAll.simps)
  next
    case True
    let ?c' = "fst (snd (executeStep_resume env s c))"
    show ?thesis
    proof (cases "?c' i = c i")
      case same: True
      then have "fst (snd (awaitAll env xs ?c')) i \<noteq> ?c' i"
        using Cons.prems True by (simp add: x awaitAll_Cons del: awaitAll.simps)
      then show ?thesis using Cons.IH True by (simp add: x awaitAll_Cons del: awaitAll.simps)
    next
      case False
      then show ?thesis
        using resume_ctx [of env s c i] True by (simp add: x awaitAll_Cons del: awaitAll.simps)
    qed
  qed
qed

lemma tick_ctx:
  "fst (snd (tick env p c)) i \<noteq> c i \<Longrightarrow> ToolCall i \<in> set (snd (snd (tick env p c)))"
proof -
  have "fst (snd (tick env p c)) = fst (snd (awaitAll env (fst (launchAll p)) c))"
    and "snd (snd (tick env p c)) =
      snd (launchAll p) @ snd (snd (awaitAll env (fst (launchAll p)) c))"
    by (simp_all add: tick_def split: prod.splits)
  then show "fst (snd (tick env p c)) i \<noteq> c i \<Longrightarrow> ToolCall i \<in> set (snd (snd (tick env p c)))"
    using awaitAll_ctx [of env "fst (launchAll p)" c i] by simp
qed

lemma run_ctx:
  "finalContext env plan i \<noteq> None \<Longrightarrow> ToolCall i \<in> set (runEvents env plan)"
proof -
  let ?P = "\<lambda>(p :: Plan) (c :: ExecutionContext) l. \<forall>i. c i \<noteq> None \<longrightarrow> ToolCall i \<in> set l"
  have step: "?P (fst (tick env p c)) (fst (snd (tick env p c))) (l @ snd (snd (tick env p c)))"
    if "?P p c l" for p c l
  proof (intro allI impI)
    fix i assume "fst (snd (tick env p c)) i \<noteq> None"
    then show "ToolCall i \<in> set (l @ snd (snd (tick env p c)))"
      using that tick_ctx [of env p c i] by (cases "c i = None") auto
  qed
  have "?P (finalPlan env plan) (finalContext env plan) (runEvents env plan) \<and>
      readySteps (finalPlan env plan) = []"
    by (rule run_rule [where P = ?P]) (simp, rule step)
  then show "finalContext env plan i \<noteq> None \<Longrightarrow> ToolCall i \<in> set (runEvents env plan)"
    by blast
qed

text \<open>
  C4: for every step whose approval predicate holds and whose decision is deny,
  \<^verbatim>\<open>executeStep\<close> calls no tool's \<^verbatim>\<open>execute\<close> and leaves the context untouched; in a
  whole run of a plan with distinct step ids the run never calls the tool for that step and
  stores nothing under its id. The agent runtime's \<^verbatim>\<open>executeStep\<close> returns before any
  call or progress report as well.
\<close>

theorem denied_step_never_invokes_tool:
  "(approvalDenied env step \<longrightarrow>
      (\<forall>i. ToolCall i \<notin> set (snd (snd (executeStep env step c)))) \<and>
      fst (snd (executeStep env step c)) = c) \<and>
   (approvalDenied env step \<and> distinct (map step_id plan) \<and> step \<in> set plan \<longrightarrow>
      ToolCall (step_id step) \<notin> set (runEvents env plan) \<and>
      finalContext env plan (step_id step) = None) \<and>
   (requiresApproval env step \<and> \<not> requestApproval env step \<longrightarrow>
      snd (runtime_executeStep env step) = [])"
proof (intro conjI impI)
  assume "approvalDenied env step"
  then show "\<forall>i. ToolCall i \<notin> set (snd (snd (executeStep env step c)))"
    and "fst (snd (executeStep env step c)) = c"
    by (simp_all add: executeStep_denied)
next
  assume h: "approvalDenied env step \<and> distinct (map step_id plan) \<and> step \<in> set plan"
  show nocall: "ToolCall (step_id step) \<notin> set (runEvents env plan)"
  proof
    assume "ToolCall (step_id step) \<in> set (runEvents env plan)"
    then obtain s where s: "s \<in> set plan" "step_id s = step_id step" "\<not> approvalDenied env s"
      using run_toolcalls h by blast
    then have "s = step" using distinct_ids_eq h by blast
    with s(3) h show False by simp
  qed
  then show "finalContext env plan (step_id step) = None"
    using run_ctx by blast
next
  assume "requiresApproval env step \<and> \<not> requestApproval env step"
  then show "snd (runtime_executeStep env step) = []"
    by (simp add: runtime_executeStep_def)
qed

text \<open>C4, witness: in \<open>fanPlan\<close> the denied deletion is never run, the read beside it is.\<close>

theorem denied_step_never_invokes_tool_witness:
  "approvalDenied demoEnv deleteStep \<and>
   distinct (map step_id fanPlan) \<and> deleteStep \<in> set fanPlan \<and>
   ToolCall (step_id deleteStep) \<notin> set (runEvents demoEnv fanPlan) \<and>
   finalContext demoEnv fanPlan (step_id deleteStep) = None \<and>
   ToolCall ''step_3'' \<in> set (runEvents demoEnv fanPlan) \<and>
   requiresApproval demoEnv deleteStep \<and> \<not> requestApproval demoEnv deleteStep \<and>
   snd (runtime_executeStep demoEnv deleteStep) = []"
proof -
  have d: "distinct (map step_id fanPlan)" and m: "deleteStep \<in> set fanPlan"
    by (simp_all add: fanPlan_def deleteStep_def readStep_def fetchStep_def)
  have r: "requiresApproval demoEnv deleteStep \<and> \<not> requestApproval demoEnv deleteStep"
    by (simp add: demoEnv_def deleteStep_def)
  have other: "ToolCall ''step_3'' \<in> set (runEvents demoEnv fanPlan)"
    by (simp add: execute_loop.simps engine_defs demo_defs)
  show ?thesis
    using denied_step_never_invokes_tool [of demoEnv deleteStep Map.empty fanPlan]
      demo_deleteStep_denied d m r other
    by simp
qed

subsection \<open>Leaving the loop\<close>

lemma final_no_ready: "readySteps (finalPlan env plan) = []"
  using run_rule [where P = "\<lambda>p c l. True" and plan = plan and env = env] by simp

lemma execute_loop_stuck:
  "readySteps plan = [] \<Longrightarrow> execute_loop env plan c l = (plan, c, l)"
  by (subst execute_loop.simps) simp

lemma stuck_run:
  assumes "readySteps plan = []"
  shows "finalPlan env plan = plan" and "runEvents env plan = []"
  using assms by (simp_all add: finalPlan_def runEvents_def run_def execute_loop_stuck)

lemma unfinished_structural_error:
  "list_ex (\<lambda>s. status s = Pending \<or> status s = Blocked) (finalPlan env plan) \<Longrightarrow>
     overallStatus (execute env plan) = RunStructuralError"
  by (simp add: execute_def summarize_def)

text \<open>
  C9: a round that finds no ready step ends the loop at once, with plan, context and events
  unchanged, and every run ends in a plan with no ready step (the loop is a total function:
  each round that goes on lowers the number of pending steps). When steps are still pending
  or blocked at that point, the summary's overall status is the structural error, not a
  completion.
\<close>

theorem no_ready_step_ends_run:
  "(readySteps plan = [] \<longrightarrow> execute_loop env plan c l = (plan, c, l)) \<and>
   readySteps (finalPlan env plan) = [] \<and>
   (list_ex (\<lambda>s. status s = Pending \<or> status s = Blocked) (finalPlan env plan) \<longrightarrow>
      overallStatus (execute env plan) = RunStructuralError) \<and>
   (readySteps plan = [] \<and> list_ex (\<lambda>s. status s = Pending \<or> status s = Blocked) plan \<longrightarrow>
      finalPlan env plan = plan \<and> runEvents env plan = [] \<and>
      overallStatus (execute env plan) = RunStructuralError)"
proof (intro conjI impI)
  show "readySteps plan = [] \<Longrightarrow> execute_loop env plan c l = (plan, c, l)"
    by (rule execute_loop_stuck)
  show "readySteps (finalPlan env plan) = []"
    by (rule final_no_ready)
  show "list_ex (\<lambda>s. status s = Pending \<or> status s = Blocked) (finalPlan env plan) \<Longrightarrow>
      overallStatus (execute env plan) = RunStructuralError"
    by (rule unfinished_structural_error)
next
  assume h: "readySteps plan = [] \<and> list_ex (\<lambda>s. status s = Pending \<or> status s = Blocked) plan"
  then show fp: "finalPlan env plan = plan" and "runEvents env plan = []"
    by (simp_all add: stuck_run)
  show "overallStatus (execute env plan) = RunStructuralError"
    using h fp unfinished_structural_error [of env plan] by simp
qed

text \<open>
  C9, witness: a plan whose only step waits for a step that is not in the plan, and
  \<open>demoPlan\<close>, where a step waits for a failed one.
\<close>

theorem no_ready_step_ends_run_witness:
  "readySteps [writeStep] = [] \<and>
   list_ex (\<lambda>s. status s = Pending \<or> status s = Blocked) [writeStep] \<and>
   finalPlan demoEnv [writeStep] = [writeStep] \<and>
   overallStatus (execute demoEnv [writeStep]) = RunStructuralError \<and>
   list_ex (\<lambda>s. status s = Pending \<or> status s = Blocked) (finalPlan demoEnv demoPlan) \<and>
   overallStatus (execute demoEnv demoPlan) = RunStructuralError"
proof -
  have a: "readySteps [writeStep] = []"
    by (simp add: readySteps_def isReady_def allDependenciesSatisfied_def writeStep_def)
  have b: "list_ex (\<lambda>s. status s = Pending \<or> status s = Blocked) [writeStep]"
    by (simp add: writeStep_def)
  have c: "list_ex (\<lambda>s. status s = Pending \<or> status s = Blocked) (finalPlan demoEnv demoPlan)"
    by (simp add: demo_finalPlan writeStep_def)
  have d: "finalPlan demoEnv [writeStep] = [writeStep] \<and>
      overallStatus (execute demoEnv [writeStep]) = RunStructuralError"
    using no_ready_step_ends_run [of "[writeStep]" demoEnv Map.empty "[]"] a b by blast
  have e: "overallStatus (execute demoEnv demoPlan) = RunStructuralError"
    using no_ready_step_ends_run [of demoPlan demoEnv Map.empty "[]"] c by blast
  show ?thesis using a b c d e by blast
qed

subsection \<open>What one round launches\<close>








subsection \<open>References between steps\<close>





subsection \<open>The value a step leaves in the context\<close>

text \<open>
  C10: for every step that is not denied approval and whose tool returns a result \<open>r\<close>
  without throwing, \<^verbatim>\<open>executeStep\<close> stores \<^verbatim>\<open>r.value\<close> in the context under the step's
  id whatever \<^verbatim>\<open>r.ok\<close> is, also when the step is marked failed; the id is then a key of
  the context, and a reference \<^verbatim>\<open>'$id'\<close> resolves to that value.
\<close>

theorem executeStep_stores_value:
  assumes "\<not> approvalDenied env step"
    and "toolRegistry env (tool step) = Some t"
    and "t (args step) = Returns r"
  shows "executeStep env step c =
     (step\<lparr>status := (if ok r then Completed else Failed), result := Some r\<rparr>,
      c(step_id step \<mapsto> val r),
      [StatusWrite (step_id step) Running, Emit (step_id step) Running,
       ToolCall (step_id step),
       StatusWrite (step_id step) (if ok r then Completed else Failed),
       Emit (step_id step) (if ok r then Completed else Failed)]) \<and>
    step_id step \<in> dom (fst (snd (executeStep env step c))) \<and>
    ctx_get (fst (snd (executeStep env step c))) (step_id step) = val r \<and>
    resolveArgs (fst (snd (executeStep env step c))) [(k, JStr (CHR ''$'' # step_id step))] =
      [(k, val r)]"
  using assms
  by (simp add: executeStep_parts executeStep_resume_def approvalDenied_def ctx_set_def
      ctx_get_def resolveArgs_def resolveValue_def Let_def)

text \<open>C10, witness: the failing fetch leaves its partial value in the context.\<close>

theorem executeStep_stores_value_witness:
  "\<not> approvalDenied demoEnv fetchStep \<and>
   status (fst (executeStep demoEnv fetchStep Map.empty)) = Failed \<and>
   fst (snd (executeStep demoEnv fetchStep Map.empty)) ''step_1'' = Some (JStr ''partial'') \<and>
   resolveArgs (fst (snd (executeStep demoEnv fetchStep Map.empty)))
     [(''content'', JStr ''$step_1'')] = [(''content'', JStr ''partial'')] \<and>
   finalContext demoEnv demoPlan ''step_1'' = Some (JStr ''partial'')"
proof -
  have a: "\<not> approvalDenied demoEnv fetchStep"
    by (simp add: approvalDenied_def demoEnv_def fetchStep_def)
  have b: "toolRegistry demoEnv (tool fetchStep) =
      Some (\<lambda>a. Returns \<lparr>ok = False, val = JStr ''partial'', error = Some ''TIMEOUT''\<rparr>)"
    by (simp add: demoEnv_def fetchStep_def)
  have i: "step_id fetchStep = ''step_1''" by (simp add: fetchStep_def)
  note inst = executeStep_stores_value [OF a b, of _ Map.empty "''content''"]
  have e: "executeStep demoEnv fetchStep Map.empty =
      (fetchStep\<lparr>status := Failed,
         result := Some \<lparr>ok = False, val = JStr ''partial'', error = Some ''TIMEOUT''\<rparr>\<rparr>,
       [''step_1'' \<mapsto> JStr ''partial''],
       [StatusWrite ''step_1'' Running, Emit ''step_1'' Running, ToolCall ''step_1'',
        StatusWrite ''step_1'' Failed, Emit ''step_1'' Failed])"
    using inst i by simp
  have "resolveArgs (fst (snd (executeStep demoEnv fetchStep Map.empty)))
      [(''content'', JStr (CHR ''$'' # step_id fetchStep))] =
      [(''content'', val \<lparr>ok = False, val = JStr ''partial'', error = Some ''TIMEOUT''\<rparr>)]"
    using inst by blast
  then have r: "resolveArgs (fst (snd (executeStep demoEnv fetchStep Map.empty)))
      [(''content'', JStr ''$step_1'')] = [(''content'', JStr ''partial'')]"
    unfolding i by simp
  show ?thesis
    using a r by (simp add: e demo_finalContext)
qed

section \<open>The sub-agent pool: how many workers run at once\<close>






section \<open>Properties of the retry loops\<close>







end
